theory Spec2Isabelle
  imports Main "HOL-Library.Sublist" "HOL-Library.AList"
begin

section \<open>Document values\<close>

text \<open>
  The document held by a BBData instance is a tree of JavaScript values. Numbers are
  integers here (no fractions, no NaN); objects keep their properties as an association
  list in the order of their creation, which is taken as the order of \<open>for ... in\<close>;
  arrays keep their elements as a list, without holes and without other properties. An
  object or array carries a reference (a natural number) so that \<open>===\<close> on two
  composites is identity, as in the language: two structurally equal composites with
  different references are different, and a composite passed around is the same object
  wherever its reference appears. Only own data properties are part of a document; the
  members inherited from the built-in prototypes are not.
\<close>

datatype jsval =
    JUndef
  | JNull
  | JBool bool
  | JNum int
  | JStr string
  | JObj nat "(string \<times> jsval) list"
  | JArr nat "jsval list"

datatype error = TypeError | Unsupported

text \<open>
  \<open>TypeError\<close> is the exception the engine throws when a property of \<open>null\<close> or
  \<open>undefined\<close> is accessed, or a missing method is called. \<open>Unsupported\<close> marks
  the steps this development gives no meaning to: a write to an array under a key that is
  neither the index of an element nor the append position (it would add a property or a
  hole, or change the length), a write to or a removal of a property of a primitive (its
  effect depends on the strictness of the host), and a \<open>splice\<close> position given by a
  string that is not a plain decimal integer. A call that ends in an error gives back the
  error only.
\<close>

fun truthy :: "jsval \<Rightarrow> bool" where
  "truthy JUndef = False"
| "truthy JNull = False"
| "truthy (JBool b) = b"
| "truthy (JNum n) = (n \<noteq> 0)"
| "truthy (JStr s) = (s \<noteq> [])"
| "truthy (JObj r fs) = True"
| "truthy (JArr r xs) = True"

fun isObject :: "jsval \<Rightarrow> bool" where
  "isObject (JObj r fs) = True"
| "isObject (JArr r xs) = True"
| "isObject v = False"

fun isArray :: "jsval \<Rightarrow> bool" where
  "isArray (JArr r xs) = True"
| "isArray v = False"

fun strict_eq :: "jsval \<Rightarrow> jsval \<Rightarrow> bool" where
  "strict_eq JUndef JUndef = True"
| "strict_eq JNull JNull = True"
| "strict_eq (JBool a) (JBool b) = (a = b)"
| "strict_eq (JNum a) (JNum b) = (a = b)"
| "strict_eq (JStr a) (JStr b) = (a = b)"
| "strict_eq (JObj r fs) (JObj r' fs') = (r = r')"
| "strict_eq (JArr r xs) (JArr r' xs') = (r = r')"
| "strict_eq v w = False"

section \<open>Strings, paths and numbers\<close>

fun split_dot :: "string \<Rightarrow> string list" where
  "split_dot [] = [[]]"
| "split_dot (c # cs) =
     (if c = CHR ''.'' then [] # split_dot cs
      else (case split_dot cs of [] \<Rightarrow> [[c]] | s # ss \<Rightarrow> (c # s) # ss))"

fun join_dot :: "string list \<Rightarrow> string" where
  "join_dot [] = []"
| "join_dot [s] = s"
| "join_dot (s # t # ss) = s @ ''.'' @ join_dot (t # ss)"

definition is_digit :: "char \<Rightarrow> bool" where
  "is_digit c = (c \<in> set ''0123456789'')"

definition is_space :: "char \<Rightarrow> bool" where
  "is_space c = (c \<in> {CHR 0x09, CHR 0x0A, CHR 0x0B, CHR 0x0C, CHR 0x0D, CHR '' ''})"

definition digit_char :: "nat \<Rightarrow> char" where
  "digit_char d = ''0123456789'' ! d"

definition digit_val :: "char \<Rightarrow> nat" where
  "digit_val c = length (takeWhile (\<lambda>d. d \<noteq> c) ''0123456789'')"

fun show_nat :: "nat \<Rightarrow> string" where
  "show_nat n = (if n < 10 then [digit_char n] else show_nat (n div 10) @ [digit_char (n mod 10)])"

declare show_nat.simps [simp del]


definition dec_val :: "string \<Rightarrow> nat" where
  "dec_val ds = foldl (\<lambda>a c. 10 * a + digit_val c) 0 ds"

text \<open>\<open>parseInt(s, 10)\<close>: leading white space, an optional sign, then the longest run of
  decimal digits; \<open>None\<close> is NaN.\<close>

definition split_sign :: "string \<Rightarrow> bool \<times> string" where
  "split_sign t =
     (case t of
        [] \<Rightarrow> (False, [])
      | c # r \<Rightarrow> if c = CHR ''-'' then (True, r) else if c = CHR ''+'' then (False, r) else (False, t))"

definition parseInt :: "string \<Rightarrow> int option" where
  "parseInt s =
     (let (neg, u) = split_sign (dropWhile is_space s);
          ds = takeWhile is_digit u
      in if ds = [] then None
         else Some (if neg then - int (dec_val ds) else int (dec_val ds)))"

text \<open>A property key is an array index when it is the decimal numeral of a number, written
  without sign, padding or leading zeros.\<close>

definition array_index :: "string \<Rightarrow> nat option" where
  "array_index k =
     (if k \<noteq> [] \<and> list_all is_digit k \<and> show_nat (dec_val k) = k then Some (dec_val k) else None)"

text \<open>The integer a string argument of \<open>splice\<close> is converted to, for the strings that are
  a decimal integer with optional sign and surrounding white space, or empty; \<open>None\<close> for
  every other string (fractions, exponents, radix prefixes, and text that is no number).\<close>

definition str_to_integer :: "string \<Rightarrow> int option" where
  "str_to_integer s =
     (let t = rev (dropWhile is_space (rev (dropWhile is_space s)));
           (neg, u) = split_sign t
      in if t = [] then Some 0
         else if u \<noteq> [] \<and> list_all is_digit u
              then Some (if neg then - int (dec_val u) else int (dec_val u))
         else None)"

section \<open>Property access\<close>

text \<open>\<open>v[k]\<close> for a value that is neither \<open>null\<close> nor \<open>undefined\<close>; a missing property
  reads as \<open>undefined\<close>.\<close>

fun getprop :: "jsval \<Rightarrow> string \<Rightarrow> jsval" where
  "getprop (JObj r fs) k = (case map_of fs k of Some v \<Rightarrow> v | None \<Rightarrow> JUndef)"
| "getprop (JArr r xs) k =
     (if k = ''length'' then JNum (int (length xs))
      else (case array_index k of
              Some i \<Rightarrow> if i < length xs then xs ! i else JUndef
            | None \<Rightarrow> JUndef))"
| "getprop (JStr s) k =
     (if k = ''length'' then JNum (int (length s))
      else (case array_index k of
              Some i \<Rightarrow> if i < length s then JStr [s ! i] else JUndef
            | None \<Rightarrow> JUndef))"
| "getprop v k = JUndef"

text \<open>\<open>prev[k] = v\<close>.\<close>

fun putprop :: "jsval \<Rightarrow> string \<Rightarrow> jsval \<Rightarrow> error + jsval" where
  "putprop (JObj r fs) k v = Inr (JObj r (AList.update k v fs))"
| "putprop (JArr r xs) k v =
     (case array_index k of
        Some i \<Rightarrow>
          if i < length xs then Inr (JArr r (xs[i := v]))
          else if i = length xs then Inr (JArr r (xs @ [v]))
          else Inl Unsupported
      | None \<Rightarrow> Inl Unsupported)"
| "putprop JUndef k v = Inl TypeError"
| "putprop JNull k v = Inl TypeError"
| "putprop p k v = Inl Unsupported"

text \<open>\<open>delete prev[k]\<close>.\<close>

fun delprop :: "jsval \<Rightarrow> string \<Rightarrow> error + jsval" where
  "delprop (JObj r fs) k = Inr (JObj r (AList.delete k fs))"
| "delprop JUndef k = Inl TypeError"
| "delprop JNull k = Inl TypeError"
| "delprop p k = Inl Unsupported"

text \<open>The position \<open>splice\<close> works at: a negative start counts from the end, and the result
  is always within the array.\<close>

definition splice_start :: "int \<Rightarrow> nat \<Rightarrow> nat" where
  "splice_start i len = (if i < 0 then nat (max (int len + i) 0) else min (nat i) len)"

definition splice_remove :: "int \<Rightarrow> 'a list \<Rightarrow> 'a list" where
  "splice_remove i xs = (let s = splice_start i (length xs) in take s xs @ drop (Suc s) xs)"


section \<open>The instance: document, bindings and observers\<close>

text \<open>
  A binding ties an element (a number standing for the DOM node) to a path and an attribute;
  writing a value to the element is an effect on the page and appears in this development as
  the event \<open>BoundUpdate\<close> that carries the element, the path, the attribute and the
  value handed to it. An observer is a callback with a context. A callback is known by a
  number, together with what its body does to the instance that calls it: the list of paths
  it passes to \<open>unobserve\<close>. Calling it is the event \<open>Notified\<close> with the
  notification object it receives.
\<close>

record binding =
  element :: nat
  twoways :: bool
  event :: string

datatype callback = Callback (cb_id: nat) (cb_unobserves: "string option list")

record observer =
  callback :: callback
  ctx :: jsval

datatype action = Create | Update | Delete

record notification =
  n_path :: "string option"
  n_action :: action
  n_changedPath :: string
  n_value :: jsval
  n_element :: "nat option"
  n_context :: jsval

datatype event =
    BoundUpdate nat string string jsval
  | Notified nat notification

type_synonym binding_index = "(string \<times> (string \<times> binding list) list) list"
type_synonym observer_index = "(string \<times> observer list) list"

record state =
  data :: jsval
  bindings :: binding_index
  observables :: observer_index
  next_ref :: nat

text \<open>A path used as a property key: \<open>null\<close> becomes the string \<open>null\<close>.\<close>

definition key_of :: "string option \<Rightarrow> string" where
  "key_of p = (case p of None \<Rightarrow> ''null'' | Some s \<Rightarrow> s)"

subsection \<open>get\<close>

definition get_step :: "bool \<Rightarrow> jsval \<Rightarrow> string \<Rightarrow> jsval" where
  "get_step allowUndefined v index =
     (if truthy v \<and> getprop v index \<noteq> JUndef then getprop v index
      else if allowUndefined then JUndef else JNull)"

definition get_in :: "jsval \<Rightarrow> string list \<Rightarrow> bool \<Rightarrow> jsval" where
  "get_in d segs allowUndefined = foldl (get_step allowUndefined) d segs"

definition get :: "state \<Rightarrow> string option \<Rightarrow> bool \<Rightarrow> jsval" where
  "get st key allowUndefined =
     (case key of
        None \<Rightarrow> data st
      | Some k \<Rightarrow> if k = [] then data st else get_in (data st) (split_dot k) allowUndefined)"

definition getParentPath :: "string \<Rightarrow> string" where
  "getParentPath path = join_dot (butlast (split_dot path))"



subsection \<open>Bindings\<close>

fun unbindAll_loop :: "string \<Rightarrow> binding_index \<Rightarrow> binding_index" where
  "unbindAll_loop q [] = []"
| "unbindAll_loop q ((path, attrs) # rest) =
     (if prefix q path then unbindAll_loop q rest else (path, attrs) # unbindAll_loop q rest)"

definition unbindAll :: "state \<Rightarrow> string option \<Rightarrow> state" where
  "unbindAll st optionalPath =
     st\<lparr>bindings := unbindAll_loop (case optionalPath of None \<Rightarrow> [] | Some q \<Rightarrow> q) (bindings st)\<rparr>"

definition updateBoundElementsForPathAndAttribute :: "state \<Rightarrow> string \<Rightarrow> string \<Rightarrow> jsval \<Rightarrow> event list" where
  "updateBoundElementsForPathAndAttribute st path attribute v =
     (case map_of (bindings st) path of
        None \<Rightarrow> []
      | Some attrs \<Rightarrow>
          (case map_of attrs attribute of
             None \<Rightarrow> []
           | Some bs \<Rightarrow> map (\<lambda>b. BoundUpdate (element b) path attribute v) bs))"

definition bind' :: "state \<Rightarrow> nat \<Rightarrow> string \<Rightarrow> string option \<Rightarrow> bool option \<Rightarrow> string option \<Rightarrow> state \<times> event list" where
  "bind' st domElement path attribute opt_twoways opt_event =
     (let attr = (case attribute of None \<Rightarrow> ''value'' | Some a \<Rightarrow> if a = [] then ''value'' else a);
          b = \<lparr>element = domElement,
               twoways = (case opt_twoways of None \<Rightarrow> True | Some t \<Rightarrow> t),
               event = (case opt_event of None \<Rightarrow> ''change'' | Some e \<Rightarrow> e)\<rparr>;
          attrs = (case map_of (bindings st) path of None \<Rightarrow> [] | Some m \<Rightarrow> m);
          bs = (case map_of attrs attr of None \<Rightarrow> [] | Some l \<Rightarrow> l);
          st' = st\<lparr>bindings := AList.update path (AList.update attr (bs @ [b]) attrs) (bindings st)\<rparr>
      in (st', updateBoundElementsForPathAndAttribute st' path attr (get st' (Some path) False)))"

definition updateBoundElementsForPath :: "state \<Rightarrow> string \<Rightarrow> jsval \<Rightarrow> event list" where
  "updateBoundElementsForPath st path v =
     (case map_of (bindings st) path of
        None \<Rightarrow> []
      | Some attrs \<Rightarrow>
          concat (map (\<lambda>attribute. updateBoundElementsForPathAndAttribute st path attribute v)
                      (map fst attrs)))"

text \<open>The two \<open>for (key in value)\<close> loops of the descendant walk run over the properties of
  an object and over the indices of an array.\<close>

fun updateBoundElementsAtPathRecursivly :: "state \<Rightarrow> string \<Rightarrow> jsval \<Rightarrow> event list"
  and for_in_object :: "state \<Rightarrow> string \<Rightarrow> (string \<times> jsval) list \<Rightarrow> event list"
  and for_in_array :: "state \<Rightarrow> string \<Rightarrow> nat \<Rightarrow> jsval list \<Rightarrow> event list"
where
  "updateBoundElementsAtPathRecursivly st path (JObj r fs) =
     updateBoundElementsForPath st path (JObj r fs) @ for_in_object st path fs"
| "updateBoundElementsAtPathRecursivly st path (JArr r xs) =
     updateBoundElementsForPath st path (JArr r xs) @ for_in_array st path 0 xs"
| "updateBoundElementsAtPathRecursivly st path v = updateBoundElementsForPath st path v"
| "for_in_object st path [] = []"
| "for_in_object st path ((key, v) # fs) =
     updateBoundElementsAtPathRecursivly st (path @ ''.'' @ key) v @ for_in_object st path fs"
| "for_in_array st path i [] = []"
| "for_in_array st path i (v # xs) =
     updateBoundElementsAtPathRecursivly st (path @ ''.'' @ show_nat i) v
       @ for_in_array st path (Suc i) xs"

definition updateBoundElementsAtPath :: "state \<Rightarrow> string \<Rightarrow> jsval \<Rightarrow> event list" where
  "updateBoundElementsAtPath st path v =
     (case v of
        JObj r fs \<Rightarrow> for_in_object st path fs
      | JArr r xs \<Rightarrow> for_in_array st path 0 xs
      | _ \<Rightarrow> [])"

subsection \<open>Observers\<close>

definition observe :: "state \<Rightarrow> string option \<Rightarrow> callback \<Rightarrow> jsval \<Rightarrow> state" where
  "observe st path cb context =
     (let key = (case path of None \<Rightarrow> ''null'' | Some p \<Rightarrow> if p = [] then ''null'' else p);
          os = (case map_of (observables st) key of None \<Rightarrow> [] | Some l \<Rightarrow> l)
      in st\<lparr>observables :=
              AList.update key (os @ [\<lparr>callback = cb, ctx = (if truthy context then context else JNull)\<rparr>])
                (observables st)\<rparr>)"

definition unobserve_in :: "observer_index \<Rightarrow> string option \<Rightarrow> observer_index" where
  "unobserve_in obs path =
     (case map_of obs (key_of path) of
        None \<Rightarrow> obs
      | Some os \<Rightarrow> AList.update (key_of path) [] obs)"

definition unobserve :: "state \<Rightarrow> string option \<Rightarrow> state" where
  "unobserve st path = st\<lparr>observables := unobserve_in (observables st) path\<rparr>"

fun unobserveAll_loop :: "string \<Rightarrow> observer_index \<Rightarrow> observer_index" where
  "unobserveAll_loop q [] = []"
| "unobserveAll_loop q ((path, os) # rest) =
     (if prefix q path then unobserveAll_loop q rest else (path, os) # unobserveAll_loop q rest)"

definition unobserveAll :: "state \<Rightarrow> string option \<Rightarrow> state" where
  "unobserveAll st optionalPath =
     st\<lparr>observables := unobserveAll_loop (case optionalPath of None \<Rightarrow> [] | Some q \<Rightarrow> q) (observables st)\<rparr>"

definition remove :: "state \<Rightarrow> state" where
  "remove st = (unbindAll (unobserveAll st None) None)\<lparr>data := JNull\<rparr>"

text \<open>What running the body of a callback does to the observer index.\<close>

definition invoke :: "callback \<Rightarrow> observer_index \<Rightarrow> observer_index" where
  "invoke cb obs = foldl unobserve_in obs (cb_unobserves cb)"

text \<open>The loop of \<open>notifyObserversForPath\<close>: it reads the list stored under the path
  again at every step, so it sees what the callbacks called so far have done to it.\<close>

function notify_loop ::
  "observer_index \<Rightarrow> string option \<Rightarrow> jsval \<Rightarrow> string \<Rightarrow> action \<Rightarrow> nat option \<Rightarrow> nat
     \<Rightarrow> observer_index \<times> event list" where
  "notify_loop obs path v changedPath act el i =
     (case map_of obs (key_of path) of
        None \<Rightarrow> (obs, [])
      | Some os \<Rightarrow>
          if i < length os then
            (case notify_loop (invoke (callback (os ! i)) obs) path v changedPath act el (Suc i) of
               (obs', evs) \<Rightarrow>
                 (obs',
                  Notified (cb_id (callback (os ! i)))
                    \<lparr>n_path = path, n_action = act, n_changedPath = changedPath, n_value = v,
                     n_element = el, n_context = ctx (os ! i)\<rparr> # evs))
          else (obs, []))"
  by pat_completeness auto
termination
proof (relation "measure (\<lambda>(obs, path, v, changedPath, act, el, i).
          length (case map_of obs (key_of path) of None \<Rightarrow> [] | Some os \<Rightarrow> os) - i)")
  show "wf (measure (\<lambda>(obs, path, v, changedPath, act, el, i).
          length (case map_of obs (key_of path) of None \<Rightarrow> [] | Some os \<Rightarrow> os) - i))"
    by simp
next
  fix obs :: observer_index and path v changedPath act el i os
  assume look: "map_of obs (key_of path) = Some os" and less: "i < length os"
  have step: "length (case map_of (unobserve_in ob k) p of None \<Rightarrow> [] | Some l \<Rightarrow> l)
                \<le> length (case map_of ob p of None \<Rightarrow> [] | Some l \<Rightarrow> l)"
    for ob :: observer_index and k p
    by (auto simp: unobserve_in_def update_conv' split: option.splits)
  have all: "length (case map_of (foldl unobserve_in ob ks) p of None \<Rightarrow> [] | Some l \<Rightarrow> l)
                \<le> length (case map_of ob p of None \<Rightarrow> [] | Some l \<Rightarrow> l)"
    for ob :: observer_index and ks p
  proof (induction ks arbitrary: ob)
    case Nil
    show ?case by simp
  next
    case (Cons k ks)
    show ?case using Cons.IH [of "unobserve_in ob k"] step [of ob k p] by simp
  qed
  show "((invoke (callback (os ! i)) obs, path, v, changedPath, act, el, Suc i),
         (obs, path, v, changedPath, act, el, i))
        \<in> measure (\<lambda>(obs, path, v, changedPath, act, el, i).
             length (case map_of obs (key_of path) of None \<Rightarrow> [] | Some os \<Rightarrow> os) - i)"
    using all [of obs "cb_unobserves (callback (os ! i))" "key_of path"] look less
    by (simp add: invoke_def)
qed

declare notify_loop.simps [simp del]

definition notifyObserversForPath ::
  "state \<Rightarrow> string option \<Rightarrow> jsval \<Rightarrow> string \<Rightarrow> action \<Rightarrow> nat option \<Rightarrow> state \<times> event list" where
  "notifyObserversForPath st path v changedPath act el =
     (case map_of (observables st) (key_of path) of
        None \<Rightarrow> (st, [])
      | Some os \<Rightarrow>
          (case notify_loop (observables st) path v changedPath act el 0 of
             (obs', evs) \<Rightarrow> (st\<lparr>observables := obs'\<rparr>, evs)))"

text \<open>The \<open>while\<close> loop of \<open>notifyObserversFromPath\<close> over the remaining parts.\<close>

function ancestors_loop ::
  "state \<Rightarrow> string list \<Rightarrow> string \<Rightarrow> action \<Rightarrow> nat option \<Rightarrow> state \<times> event list" where
  "ancestors_loop st parts path act el =
     (if length parts > 0 then
        (let currentPath = join_dot parts in
         case (if map_of (observables st) currentPath \<noteq> None
               then notifyObserversForPath st (Some currentPath)
                      (get st (Some currentPath) False) path act el
               else (st, [])) of
           (st1, evs1) \<Rightarrow>
             (case ancestors_loop st1 (butlast parts) path act el of
                (st2, evs2) \<Rightarrow> (st2, evs1 @ evs2)))
      else (st, []))"
  by pat_completeness auto
termination
  by (relation "measure (\<lambda>(st, parts, path, act, el). length parts)") auto

declare ancestors_loop.simps [simp del]

definition notifyObserversFromPath ::
  "state \<Rightarrow> string \<Rightarrow> action \<Rightarrow> nat option \<Rightarrow> state \<times> event list" where
  "notifyObserversFromPath st path act el =
     (case ancestors_loop st (butlast (split_dot path)) path act el of
        (st1, evs1) \<Rightarrow>
          (case notifyObserversForPath st1 None (get st1 (Some []) False) path act el of
             (st2, evs2) \<Rightarrow> (st2, evs1 @ evs2)))"

definition notify ::
  "state \<Rightarrow> string \<Rightarrow> jsval \<Rightarrow> action \<Rightarrow> nat option \<Rightarrow> state \<times> event list" where
  "notify st path v act el =
     (let evs0 = updateBoundElementsForPath st path v @ updateBoundElementsAtPath st path v in
      case (if map_of (observables st) path \<noteq> None
            then notifyObserversForPath st (Some path) v path act el
            else (st, [])) of
        (st1, evs1) \<Rightarrow>
          (case notifyObserversFromPath st1 path act el of
             (st2, evs2) \<Rightarrow> (st2, evs0 @ evs1 @ evs2)))"

section \<open>Mutations\<close>

text \<open>
  \<open>set\<close>, \<open>moveInArray\<close> and \<open>delete\<close> run the same reduction over the parts of the
  path: every part but the last steps into \<open>prev[cur]\<close>, after replacing it by a new empty
  object when it is not an object; the last part does the work. The source changes the
  document in place; here each step returns the rebuilt value. \<open>n\<close> is the reference the
  next new object gets.
\<close>

fun walk ::
  "(jsval \<Rightarrow> string \<Rightarrow> error + jsval \<times> 'a) \<Rightarrow> nat \<Rightarrow> jsval \<Rightarrow> string \<Rightarrow> string list
     \<Rightarrow> error + jsval \<times> 'a" where
  "walk final n prev cur [] = final prev cur"
| "walk final n prev cur (nxt # rest) =
     (if prev = JUndef \<or> prev = JNull then Inl TypeError
      else
        (let child = (if isObject (getprop prev cur) then getprop prev cur else JObj n []) in
         case putprop prev cur child of
           Inl e \<Rightarrow> Inl e
         | Inr p \<Rightarrow>
             (case walk final (Suc n) child nxt rest of
                Inl e \<Rightarrow> Inl e
              | Inr (child', r) \<Rightarrow>
                  (case putprop prev cur child' of
                     Inl e \<Rightarrow> Inl e
                   | Inr prev' \<Rightarrow> Inr (prev', r)))))"

definition reduce_path ::
  "(jsval \<Rightarrow> string \<Rightarrow> error + jsval \<times> 'a) \<Rightarrow> state \<Rightarrow> string \<Rightarrow> error + jsval \<times> 'a" where
  "reduce_path final st path =
     walk final (next_ref st) (data st) (hd (split_dot path)) (tl (split_dot path))"

subsection \<open>set\<close>

text \<open>The last step of \<open>set\<close>: the key written (changed when the index was clamped, and
  given back only when the parent is an array), and whether the property is new.\<close>

definition set_final :: "jsval \<Rightarrow> jsval \<Rightarrow> string \<Rightarrow> error + jsval \<times> (string option \<times> bool)" where
  "set_final v prev cur =
     (if prev = JUndef \<or> prev = JNull then Inl TypeError
      else
        (let cur' = (case prev of
                       JArr r xs \<Rightarrow>
                         (case parseInt cur of
                            None \<Rightarrow> cur
                          | Some index \<Rightarrow>
                              if index > int (length xs) then show_nat (length xs)
                              else if index < 0 then show_nat 0
                              else cur)
                     | _ \<Rightarrow> cur);
             isNew = (getprop prev cur' = JUndef)
         in case putprop prev cur' v of
              Inl e \<Rightarrow> Inl e
            | Inr prev' \<Rightarrow> Inr (prev', (if isArray prev then Some cur' else None, isNew))))"

definition with_parent :: "string \<Rightarrow> string \<Rightarrow> string" where
  "with_parent path cur =
     (let parentPath = getParentPath path
      in (if parentPath \<noteq> [] then parentPath @ ''.'' else []) @ cur)"

definition set' ::
  "state \<Rightarrow> string \<Rightarrow> jsval \<Rightarrow> nat option \<Rightarrow> error + string option \<times> state \<times> event list" where
  "set' st path v el =
     (if strict_eq (get st (Some path) False) v then Inr (None, st, [])
      else
        (case reduce_path (set_final v) st path of
           Inl e \<Rightarrow> Inl e
         | Inr (d, (key, isNew)) \<Rightarrow>
             (let modifiedPath = (case key of None \<Rightarrow> path | Some cur \<Rightarrow> with_parent path cur);
                  st1 = st\<lparr>data := d, next_ref := next_ref st + length (split_dot path)\<rparr>
              in case notify st1 modifiedPath v (if isNew then Create else Update) el of
                   (st2, evs) \<Rightarrow> Inr (Some modifiedPath, st2, evs))))"

subsection \<open>delete\<close>

definition delete_final :: "jsval \<Rightarrow> string \<Rightarrow> error + jsval \<times> unit" where
  "delete_final prev cur =
     (case prev of
        JArr r xs \<Rightarrow>
          (case str_to_integer cur of
             None \<Rightarrow> Inl Unsupported
           | Some i \<Rightarrow> Inr (JArr r (splice_remove i xs), ()))
      | _ \<Rightarrow> (case delprop prev cur of Inl e \<Rightarrow> Inl e | Inr prev' \<Rightarrow> Inr (prev', ())))"

definition delete :: "state \<Rightarrow> string \<Rightarrow> error + state \<times> event list" where
  "delete st path =
     (case reduce_path delete_final st path of
        Inl e \<Rightarrow> Inl e
      | Inr (d, u) \<Rightarrow>
          (let st1 = unobserve (unbindAll st (Some path)) (Some path);
               st2 = st1\<lparr>data := d, next_ref := next_ref st + length (split_dot path)\<rparr>
           in Inr (notify st2 path JNull Delete None)))"

subsection \<open>move\<close>





section \<open>Vocabulary of the claims\<close>

text \<open>The value found inside a composite along a list of keys, through own properties
  and element indices only.\<close>

fun subvalue :: "jsval \<Rightarrow> string list \<Rightarrow> jsval option" where
  "subvalue v [] = Some v"
| "subvalue (JObj r fs) (k # ks) =
     (case map_of fs k of None \<Rightarrow> None | Some c \<Rightarrow> subvalue c ks)"
| "subvalue (JArr r xs) (k # ks) =
     (case array_index k of
        Some i \<Rightarrow> if i < length xs then subvalue (xs ! i) ks else None
      | None \<Rightarrow> None)"
| "subvalue v (k # ks) = None"

text \<open>The path of a descendant: the keys appended to the path, each after a dot.\<close>

definition sub_path :: "string \<Rightarrow> string list \<Rightarrow> string" where
  "sub_path P ks = P @ concat (map (\<lambda>k. ''.'' @ k) ks)"

text \<open>The bindings and the observers registered under a key.\<close>

definition bound_at :: "state \<Rightarrow> string \<Rightarrow> string \<Rightarrow> binding list" where
  "bound_at st path attribute =
     (case map_of (bindings st) path of
        None \<Rightarrow> []
      | Some attrs \<Rightarrow> (case map_of attrs attribute of None \<Rightarrow> [] | Some bs \<Rightarrow> bs))"

definition observers_at :: "state \<Rightarrow> string \<Rightarrow> observer list" where
  "observers_at st key = (case map_of (observables st) key of None \<Rightarrow> [] | Some os \<Rightarrow> os)"

text \<open>The call of one observer, and the calls of all observers stored under a path, in the
  order of their registration.\<close>

definition call :: "string option \<Rightarrow> jsval \<Rightarrow> string \<Rightarrow> action \<Rightarrow> nat option \<Rightarrow> observer \<Rightarrow> event" where
  "call path v changedPath act el ob =
     Notified (cb_id (callback ob))
       \<lparr>n_path = path, n_action = act, n_changedPath = changedPath, n_value = v,
        n_element = el, n_context = ctx ob\<rparr>"

definition observer_calls ::
  "state \<Rightarrow> string option \<Rightarrow> jsval \<Rightarrow> string \<Rightarrow> action \<Rightarrow> nat option \<Rightarrow> event list" where
  "observer_calls st path v changedPath act el =
     map (call path v changedPath act el) (observers_at st (key_of path))"

text \<open>An observer whose callback calls \<open>unobserve\<close> on the key.\<close>

definition unobserves :: "string \<Rightarrow> observer \<Rightarrow> bool" where
  "unobserves key ob = (key \<in> set (map key_of (cb_unobserves (callback ob))))"

text \<open>A list up to and including its first element with a property.\<close>

fun up_to_first :: "('a \<Rightarrow> bool) \<Rightarrow> 'a list \<Rightarrow> 'a list" where
  "up_to_first P [] = []"
| "up_to_first P (x # xs) = (if P x then [x] else x # up_to_first P xs)"

text \<open>No registered callback calls back into the instance.\<close>

definition quiet :: "state \<Rightarrow> bool" where
  "quiet st = list_all (\<lambda>(key, os). list_all (\<lambda>ob. cb_unobserves (callback ob) = []) os) (observables st)"

text \<open>The proper ancestors of a path that are not the root, deepest first.\<close>

definition ancestor_paths :: "string \<Rightarrow> string list" where
  "ancestor_paths path =
     map (\<lambda>n. join_dot (take n (split_dot path))) (rev [1..<length (split_dot path)])"

text \<open>The calls of the observers of one ancestor, given by its parts, with the value read at
  the ancestor.\<close>

definition ancestor_calls :: "state \<Rightarrow> string \<Rightarrow> action \<Rightarrow> nat option \<Rightarrow> string list \<Rightarrow> event list" where
  "ancestor_calls st path act el ps =
     observer_calls st (Some (join_dot ps)) (get st (Some (join_dot ps)) False) path act el"

text \<open>The events of a call that returned; the events that update an element.\<close>

definition events_of :: "error + 'a \<times> state \<times> event list \<Rightarrow> event list" where
  "events_of res = (case res of Inl e \<Rightarrow> [] | Inr (r, st, evs) \<Rightarrow> evs)"


text \<open>The instance after the teardown and the removal that \<open>delete\<close> does before it
  notifies, with \<open>d\<close> the document after the removal.\<close>

definition after_teardown :: "state \<Rightarrow> string \<Rightarrow> jsval \<Rightarrow> state" where
  "after_teardown st p d =
     (unobserve (unbindAll st (Some p)) (Some p))
       \<lparr>data := d, next_ref := next_ref st + length (split_dot p)\<rparr>"








section \<open>Example instances\<close>

definition user_bindings :: binding_index where
  "user_bindings =
     [(''user'', [(''value'', [\<lparr>element = 1, twoways = True, event = ''change''\<rparr>])]),
      (''user.a'', [(''value'', [\<lparr>element = 2, twoways = True, event = ''change''\<rparr>])]),
      (''username'', [(''value'', [\<lparr>element = 3, twoways = True, event = ''change''\<rparr>])]),
      (''other'', [(''value'', [\<lparr>element = 4, twoways = True, event = ''change''\<rparr>])])]"

definition user_observers :: observer_index where
  "user_observers =
     [(''user'', [\<lparr>callback = Callback 1 [], ctx = JNull\<rparr>]),
      (''user.a'', [\<lparr>callback = Callback 2 [], ctx = JNull\<rparr>]),
      (''username'', [\<lparr>callback = Callback 3 [], ctx = JNull\<rparr>]),
      (''other'', [\<lparr>callback = Callback 4 [], ctx = JNull\<rparr>])]"

definition user_state :: state where
  "user_state =
     \<lparr>data = JObj 0 [], bindings = user_bindings, observables = user_observers, next_ref = 1\<rparr>"

text \<open>The document \<open>{a: 1}\<close> with one observer of the whole document.\<close>

definition doc_a1 :: state where
  "doc_a1 =
     \<lparr>data = JObj 0 [(''a'', JNum 1)], bindings = [],
      observables = [(''null'', [\<lparr>callback = Callback 1 [], ctx = JNull\<rparr>])], next_ref = 1\<rparr>"

text \<open>The document \<open>{a: {}}\<close> with element 7 bound to \<open>a.b\<close>.\<close>

definition doc_fanout :: state where
  "doc_fanout =
     \<lparr>data = JObj 0 [(''a'', JObj 1 [])],
      bindings = [(''a.b'', [(''value'', [\<lparr>element = 7, twoways = True, event = ''change''\<rparr>])])],
      observables = [], next_ref = 2\<rparr>"


text \<open>Two observers of \<open>a\<close>; the callback of the first calls \<open>unobserve("a")\<close>.\<close>

definition doc_reentrant :: state where
  "doc_reentrant =
     \<lparr>data = JObj 0 [(''a'', JNum 1)], bindings = [],
      observables = [(''a'', [\<lparr>callback = Callback 1 [Some ''a''], ctx = JNull\<rparr>,
                              \<lparr>callback = Callback 2 [], ctx = JNull\<rparr>])],
      next_ref = 1\<rparr>"

text \<open>The document \<open>{a: {b: 1}}\<close> with an element bound to \<open>a.b\<close> and an observer of
  \<open>a.b\<close>, and the same instance after \<open>delete("a")\<close>.\<close>

definition doc_cascade :: state where
  "doc_cascade =
     \<lparr>data = JObj 0 [(''a'', JObj 1 [(''b'', JNum 1)])],
      bindings = [(''a.b'', [(''value'', [\<lparr>element = 7, twoways = True, event = ''change''\<rparr>])])],
      observables = [(''a.b'', [\<lparr>callback = Callback 3 [], ctx = JNull\<rparr>])],
      next_ref = 2\<rparr>"

definition doc_cascade_after :: state where
  "doc_cascade_after =
     \<lparr>data = JObj 0 [], bindings = [],
      observables = [(''a.b'', [\<lparr>callback = Callback 3 [], ctx = JNull\<rparr>])],
      next_ref = 3\<rparr>"













section \<open>Evaluation on concrete instances\<close>

lemmas eval_defs =
  set'_def reduce_path_def get_def get_in_def get_step_def set_final_def notify_def
  notifyObserversFromPath_def notifyObserversForPath_def updateBoundElementsForPath_def
  updateBoundElementsAtPath_def updateBoundElementsForPathAndAttribute_def
  with_parent_def getParentPath_def key_of_def Let_def
  ancestors_loop.simps notify_loop.simps delete_def delete_final_def unbindAll_def
  unobserve_def unobserve_in_def invoke_def

section \<open>Properties of the registries\<close>

lemma unbindAll_loop_filter:
  "unbindAll_loop q bs = filter (\<lambda>(p, attrs). \<not> prefix q p) bs"
  by (induction bs) auto

lemma unobserveAll_loop_filter:
  "unobserveAll_loop q obs = filter (\<lambda>(p, os). \<not> prefix q p) obs"
  by (induction obs) auto

section \<open>Binding updates of the descendant walk\<close>

lemma sub_path_Nil [simp]: "sub_path P [] = P"
  by (simp add: sub_path_def)

lemma sub_path_Cons: "sub_path P (k # ks) = sub_path (P @ ''.'' @ k) ks"
  by (simp add: sub_path_def)

lemma array_index_show: "array_index k = Some i \<Longrightarrow> show_nat i = k"
  by (auto simp: array_index_def split: if_splits)

lemma bound_at_update:
  assumes "b \<in> set (bound_at st path a)"
  shows "BoundUpdate (element b) path a v \<in> set (updateBoundElementsForPath st path v)"
proof (cases "map_of (bindings st) path")
  case None
  with assms show ?thesis by (simp add: bound_at_def)
next
  case attrs: (Some attrs)
  show ?thesis
  proof (cases "map_of attrs a")
    case None
    with attrs assms show ?thesis by (simp add: bound_at_def)
  next
    case (Some bs)
    with attrs assms have b: "b \<in> set bs" by (simp add: bound_at_def)
    from Some have "(a, bs) \<in> set attrs" by (rule map_of_SomeD)
    then have "a \<in> fst ` set attrs" by force
    moreover have "BoundUpdate (element b) path a v
        \<in> set (updateBoundElementsForPathAndAttribute st path a v)"
      using attrs Some b by (auto simp: updateBoundElementsForPathAndAttribute_def)
    ultimately show ?thesis using attrs
      by (auto simp: updateBoundElementsForPath_def)
  qed
qed

lemma descend_events:
  "(\<forall>ks w a b. subvalue v ks = Some w \<longrightarrow> b \<in> set (bound_at st (sub_path path ks) a)
      \<longrightarrow> BoundUpdate (element b) (sub_path path ks) a w
            \<in> set (updateBoundElementsAtPathRecursivly st path v))"
  "(\<forall>k c ks w a b. (k, c) \<in> set fs \<longrightarrow> subvalue c ks = Some w
      \<longrightarrow> b \<in> set (bound_at st (sub_path path (k # ks)) a)
      \<longrightarrow> BoundUpdate (element b) (sub_path path (k # ks)) a w \<in> set (for_in_object st path fs))"
  "(\<forall>j ks w a b. j < length xs \<longrightarrow> subvalue (xs ! j) ks = Some w
      \<longrightarrow> b \<in> set (bound_at st (sub_path path (show_nat (i + j) # ks)) a)
      \<longrightarrow> BoundUpdate (element b) (sub_path path (show_nat (i + j) # ks)) a w
            \<in> set (for_in_array st path i xs))"
proof (induction st path v and st path fs and st path i xs
       rule: updateBoundElementsAtPathRecursivly_for_in_object_for_in_array.induct)
  case (1 st path r fs)
  show ?case
  proof (intro allI impI)
    fix ks w a b
    assume sv: "subvalue (JObj r fs) ks = Some w"
      and b: "b \<in> set (bound_at st (sub_path path ks) a)"
    show "BoundUpdate (element b) (sub_path path ks) a w
            \<in> set (updateBoundElementsAtPathRecursivly st path (JObj r fs))"
    proof (cases ks)
      case Nil
      with sv have w: "w = JObj r fs" by simp
      from b Nil show ?thesis unfolding w by (simp add: bound_at_update)
    next
      case (Cons k ks')
      with sv obtain c where c: "map_of fs k = Some c" "subvalue c ks' = Some w"
        by (auto split: option.splits)
      then have "(k, c) \<in> set fs" by (simp add: map_of_SomeD)
      with 1 c(2) b Cons show ?thesis by simp
    qed
  qed
next
  case (2 st path r xs)
  show ?case
  proof (intro allI impI)
    fix ks w a b
    assume sv: "subvalue (JArr r xs) ks = Some w"
      and b: "b \<in> set (bound_at st (sub_path path ks) a)"
    show "BoundUpdate (element b) (sub_path path ks) a w
            \<in> set (updateBoundElementsAtPathRecursivly st path (JArr r xs))"
    proof (cases ks)
      case Nil
      with sv have w: "w = JArr r xs" by simp
      from b Nil show ?thesis unfolding w by (simp add: bound_at_update)
    next
      case (Cons k ks')
      with sv obtain j where j: "array_index k = Some j" "j < length xs" "subvalue (xs ! j) ks' = Some w"
        by (auto split: option.splits if_splits)
      then have "show_nat (0 + j) = k" by (simp add: array_index_show)
      with 2 j b Cons show ?thesis by auto
    qed
  qed
next
  case (7 st path i v xs)
  show ?case
  proof (intro allI impI)
    fix j ks w a b
    assume j: "j < length (v # xs)" and sv: "subvalue ((v # xs) ! j) ks = Some w"
      and b: "b \<in> set (bound_at st (sub_path path (show_nat (i + j) # ks)) a)"
    show "BoundUpdate (element b) (sub_path path (show_nat (i + j) # ks)) a w
            \<in> set (for_in_array st path i (v # xs))"
    proof (cases j)
      case 0
      with sv b 7(1) show ?thesis by (simp add: sub_path_Cons)
    next
      case (Suc j')
      with j sv b 7(2) show ?thesis by simp
    qed
  qed
qed (auto simp: bound_at_update sub_path_Cons elim!: subvalue.elims)

lemma notify_events:
  "\<exists>rest. snd (notify st path v act el) =
     updateBoundElementsForPath st path v @ updateBoundElementsAtPath st path v @ rest"
  by (auto simp: notify_def Let_def split: prod.splits)

lemma updateBoundElementsAtPath_events:
  assumes "ks \<noteq> []" "subvalue v ks = Some w" "b \<in> set (bound_at st (sub_path path ks) a)"
  shows "BoundUpdate (element b) (sub_path path ks) a w \<in> set (updateBoundElementsAtPath st path v)"
proof -
  from assms(1) obtain k ks' where ks: "ks = k # ks'" by (cases ks) auto
  show ?thesis
  proof (cases v)
    case (JObj r fs)
    with assms(2) ks obtain c where c: "map_of fs k = Some c" "subvalue c ks' = Some w"
      by (auto split: option.splits)
    then have "(k, c) \<in> set fs" by (simp add: map_of_SomeD)
    with descend_events(2) [of fs st path] c(2) assms(3) ks JObj show ?thesis
      by (simp add: updateBoundElementsAtPath_def)
  next
    case (JArr r xs)
    with assms(2) ks obtain j where j: "array_index k = Some j" "j < length xs"
        "subvalue (xs ! j) ks' = Some w"
      by (auto split: option.splits if_splits)
    then have "show_nat (0 + j) = k" by (simp add: array_index_show)
    with descend_events(3) [of xs st path 0] j assms(3) ks JArr show ?thesis
      by (auto simp: updateBoundElementsAtPath_def)
  qed (use assms(2) ks in auto)
qed

lemma set'_proceeds:
  assumes "set' st P V el = Inr (Some mp, st', evs)"
  shows "\<exists>d key isNew.
           \<not> strict_eq (get st (Some P) False) V
         \<and> reduce_path (set_final V) st P = Inr (d, (key, isNew))
         \<and> mp = (case key of None \<Rightarrow> P | Some cur \<Rightarrow> with_parent P cur)
         \<and> notify (st\<lparr>data := d, next_ref := next_ref st + length (split_dot P)\<rparr>) mp V
              (if isNew then Create else Update) el = (st', evs)"
  using assms
  by (auto simp: set'_def Let_def split: if_splits sum.splits prod.splits)

lemma fanout_run:
  "set' doc_fanout ''a'' (JObj 5 [(''b'', JNum 7)]) None =
     Inr (Some ''a'',
          \<lparr>data = JObj 0 [(''a'', JObj 5 [(''b'', JNum 7)])],
           bindings = [(''a.b'', [(''value'', [\<lparr>element = 7, twoways = True, event = ''change''\<rparr>])])],
           observables = [], next_ref = 3\<rparr>,
          [BoundUpdate 7 ''a.b'' ''value'' (JNum 7)])"
  by (simp add: doc_fanout_def eval_defs)

section \<open>The observer loops\<close>

lemma unobserve_in_lookup:
  "map_of (unobserve_in obs p) k =
     (if k = key_of p \<and> map_of obs k \<noteq> None then Some [] else map_of obs k)"
  by (auto simp: unobserve_in_def update_conv' split: option.splits)

lemma invoke_lookup:
  "map_of obs k = Some os \<Longrightarrow>
   map_of (foldl unobserve_in obs ps) k = Some (if k \<in> set (map key_of ps) then [] else os)"
proof (induction ps arbitrary: obs os)
  case Nil
  then show ?case by simp
next
  case (Cons p ps)
  show ?case
  proof (cases "k = key_of p")
    case True
    with Cons.prems have "map_of (unobserve_in obs p) k = Some []"
      by (simp add: unobserve_in_lookup)
    from Cons.IH [OF this] True show ?thesis by simp
  next
    case False
    with Cons.prems have "map_of (unobserve_in obs p) k = Some os"
      by (simp add: unobserve_in_lookup)
    from Cons.IH [OF this] False show ?thesis by simp
  qed
qed

lemma up_to_first_drop:
  "i < length os \<Longrightarrow>
   up_to_first P (drop i os) = os ! i # (if P (os ! i) then [] else up_to_first P (drop (Suc i) os))"
  by (simp add: Cons_nth_drop_Suc [symmetric])

lemma notify_loop_events:
  "map_of obs (key_of path) = Some os \<Longrightarrow>
   snd (notify_loop obs path v cp act el i) =
     map (call path v cp act el) (up_to_first (unobserves (key_of path)) (drop i os))"
proof (induction obs path v cp act el i arbitrary: os rule: notify_loop.induct)
  case (1 obs path v cp act el i)
  show ?case
  proof (cases "i < length os")
    case False
    with "1.prems" show ?thesis by (simp add: notify_loop.simps)
  next
    case True
    let ?ob = "os ! i"
    let ?obs' = "invoke (callback ?ob) obs"
    have look': "map_of ?obs' (key_of path) = Some (if unobserves (key_of path) ?ob then [] else os)"
      using invoke_lookup [OF "1.prems"] by (simp add: invoke_def unobserves_def)
    have rest: "snd (notify_loop ?obs' path v cp act el (Suc i)) =
        map (call path v cp act el)
          (up_to_first (unobserves (key_of path))
             (drop (Suc i) (if unobserves (key_of path) ?ob then [] else os)))"
      by (rule "1.IH" [OF "1.prems" True look'])
    have "snd (notify_loop obs path v cp act el i) =
        call path v cp act el ?ob # snd (notify_loop ?obs' path v cp act el (Suc i))"
      using "1.prems" True
      by (subst notify_loop.simps) (simp add: call_def split: prod.splits)
    with rest True show ?thesis
      by (simp add: up_to_first_drop)
  qed
qed

lemma quiet_invoke:
  "cb_unobserves cb = [] \<Longrightarrow> invoke cb obs = obs"
  by (simp add: invoke_def)

lemma notify_loop_quiet:
  "map_of obs (key_of path) = Some os \<Longrightarrow> list_all (\<lambda>ob. cb_unobserves (callback ob) = []) os \<Longrightarrow>
   notify_loop obs path v cp act el i = (obs, map (call path v cp act el) (drop i os))"
proof (induction obs path v cp act el i arbitrary: os rule: notify_loop.induct)
  case (1 obs path v cp act el i)
  show ?case
  proof (cases "i < length os")
    case False
    with "1.prems" show ?thesis by (simp add: notify_loop.simps)
  next
    case True
    with "1.prems"(2) have q: "cb_unobserves (callback (os ! i)) = []"
      by (simp add: list_all_length)
    then have inv: "invoke (callback (os ! i)) obs = obs" by (rule quiet_invoke)
    from "1.IH" [OF "1.prems"(1) True] "1.prems" inv
    have "notify_loop obs path v cp act el (Suc i) = (obs, map (call path v cp act el) (drop (Suc i) os))"
      by simp
    with "1.prems" True inv show ?thesis
      by (subst notify_loop.simps) (simp add: call_def Cons_nth_drop_Suc [symmetric])
  qed
qed

lemma quiet_at:
  "quiet st \<Longrightarrow> map_of (observables st) k = Some os \<Longrightarrow> list_all (\<lambda>ob. cb_unobserves (callback ob) = []) os"
  by (auto simp: quiet_def list_all_iff dest!: map_of_SomeD)

lemma notifyObserversForPath_quiet:
  assumes "quiet st"
  shows "notifyObserversForPath st path v cp act el = (st, observer_calls st path v cp act el)"
proof (cases "map_of (observables st) (key_of path)")
  case None
  then show ?thesis
    by (simp add: notifyObserversForPath_def observer_calls_def observers_at_def)
next
  case (Some os)
  from notify_loop_quiet [OF Some quiet_at [OF assms Some]] Some show ?thesis
    by (simp add: notifyObserversForPath_def observer_calls_def observers_at_def)
qed

lemma observer_calls_absent:
  "map_of (observables st) k = None \<Longrightarrow> observer_calls st (Some k) v cp act el = []"
  by (simp add: observer_calls_def observers_at_def key_of_def)

lemma ancestors_loop_quiet:
  assumes "quiet st"
  shows "ancestors_loop st parts path act el =
    (st, concat (map (\<lambda>n. ancestor_calls st path act el (take n parts))
                     (rev [1..<Suc (length parts)])))"
proof (induction parts rule: rev_induct)
  case Nil
  show ?case by (subst ancestors_loop.simps) simp
next
  case (snoc x xs)
  let ?G = "ancestor_calls st path act el"
  have step: "(if map_of (observables st) (join_dot (xs @ [x])) \<noteq> None
         then notifyObserversForPath st (Some (join_dot (xs @ [x])))
                (get st (Some (join_dot (xs @ [x]))) False) path act el
         else (st, []))
      = (st, ?G (xs @ [x]))"
    using assms
    by (simp add: notifyObserversForPath_quiet observer_calls_absent ancestor_calls_def)
  have unfold: "ancestors_loop st (xs @ [x]) path act el =
      (st, ?G (xs @ [x]) @ concat (map (\<lambda>n. ?G (take n xs)) (rev [1..<Suc (length xs)])))"
    apply (subst ancestors_loop.simps)
    apply (simp only: Let_def step)
    apply (simp add: snoc)
    done
  have same: "map (\<lambda>n. ?G (take n (xs @ [x]))) (rev [1..<Suc (length xs)])
            = map (\<lambda>n. ?G (take n xs)) (rev [1..<Suc (length xs)])"
    by (rule map_cong) auto
  have "[1..<Suc (length (xs @ [x]))] = [1..<Suc (length xs)] @ [Suc (length xs)]"
    by simp
  then have "concat (map (\<lambda>n. ?G (take n (xs @ [x]))) (rev [1..<Suc (length (xs @ [x]))]))
      = ?G (take (Suc (length xs)) (xs @ [x]))
        @ concat (map (\<lambda>n. ?G (take n (xs @ [x]))) (rev [1..<Suc (length xs)]))"
    by (simp only: rev_append rev.simps append_Nil list.map concat.simps append_Cons)
  also have "\<dots> = ?G (xs @ [x]) @ concat (map (\<lambda>n. ?G (take n xs)) (rev [1..<Suc (length xs)]))"
    by (simp only: same) simp
  finally show ?case using unfold by (simp only:)
qed





lemma split_dot_nonempty: "split_dot s \<noteq> []"
  by (induction s) (auto split: list.splits)

lemma notifyObserversFromPath_quiet:
  assumes "quiet st"
  shows "notifyObserversFromPath st path act el =
     (st, concat (map (\<lambda>q. observer_calls st (Some q) (get st (Some q) False) path act el)
                      (ancestor_paths path))
          @ observer_calls st None (data st) path act el)"
proof -
  let ?segs = "split_dot path"
  have len: "Suc (length (butlast ?segs)) = length ?segs"
    using split_dot_nonempty [of path] by (cases ?segs) auto
  have "map (\<lambda>n. ancestor_calls st path act el (take n (butlast ?segs))) (rev [1..<length ?segs])
      = map (\<lambda>n. ancestor_calls st path act el (take n ?segs)) (rev [1..<length ?segs])"
    by (rule map_cong) (auto simp: take_butlast)
  then have "concat (map (\<lambda>n. ancestor_calls st path act el (take n (butlast ?segs)))
                 (rev [1..<Suc (length (butlast ?segs))]))
      = concat (map (\<lambda>q. observer_calls st (Some q) (get st (Some q) False) path act el)
                      (ancestor_paths path))"
    by (simp only: len) (simp add: ancestor_paths_def ancestor_calls_def comp_def)
  then show ?thesis
    using assms
    by (simp add: notifyObserversFromPath_def ancestors_loop_quiet notifyObserversForPath_quiet
          get_def)
qed

lemma notify_quiet:
  assumes "quiet st"
  shows "notify st P V A el =
      (st,
       (updateBoundElementsForPath st P V @ updateBoundElementsAtPath st P V)
       @ observer_calls st (Some P) V P A el
       @ concat (map (\<lambda>q. observer_calls st (Some q) (get st (Some q) False) P A el)
                     (ancestor_paths P))
       @ observer_calls st None (data st) P A el)"
proof -
  have exact: "(if map_of (observables st) P \<noteq> None
                then notifyObserversForPath st (Some P) V P A el else (st, []))
             = (st, observer_calls st (Some P) V P A el)"
    using assms by (simp add: notifyObserversForPath_quiet observer_calls_absent)
  show ?thesis
    unfolding notify_def Let_def exact
    by (simp add: notifyObserversFromPath_quiet [OF assms])
qed


lemma up_to_first_prefix: "prefix (up_to_first P xs) xs"
  by (induction xs) auto

section \<open>Paths as strings\<close>





section \<open>delete\<close>

lemma delete_proceeds:
  assumes "delete st p = Inr (st', evs)"
  shows "\<exists>d. reduce_path delete_final st p = Inr (d, ())
           \<and> notify ((unobserve (unbindAll st (Some p)) (Some p))
                       \<lparr>data := d, next_ref := next_ref st + length (split_dot p)\<rparr>)
                 p JNull Delete None = (st', evs)"
  using assms by (auto simp: delete_def Let_def split: sum.splits)

lemma list_all_update:
  "list_all P al \<Longrightarrow> P (k, v) \<Longrightarrow> list_all P (AList.update k v al)"
  by (induction al) auto

lemma quiet_unobserve_in:
  "list_all (\<lambda>(key, os). list_all (\<lambda>ob. cb_unobserves (callback ob) = []) os) obs \<Longrightarrow>
   list_all (\<lambda>(key, os). list_all (\<lambda>ob. cb_unobserves (callback ob) = []) os) (unobserve_in obs p)"
  by (auto simp: unobserve_in_def list_all_update split: option.splits)

lemma observers_at_unobserve:
  "observers_at (st\<lparr>observables := unobserve_in (observables st) (Some p)\<rparr>) q =
     (if q = p then [] else observers_at st q)"
  by (auto simp: observers_at_def unobserve_in_lookup key_of_def split: option.splits)




lemma after_teardown_fields:
  "bindings (after_teardown st p d) = filter (\<lambda>(q, attrs). \<not> prefix p q) (bindings st)"
  "observables (after_teardown st p d) = unobserve_in (observables st) (Some p)"
  "data (after_teardown st p d) = d"
  by (simp_all add: after_teardown_def unobserve_def unbindAll_def unbindAll_loop_filter)

lemma observers_at_after_teardown:
  "observers_at (after_teardown st p d) q = (if q = p then [] else observers_at st q)"
  by (auto simp: observers_at_def after_teardown_fields unobserve_in_lookup key_of_def
      split: option.splits)

lemma quiet_after_teardown: "quiet st \<Longrightarrow> quiet (after_teardown st p d)"
  by (simp add: quiet_def after_teardown_fields quiet_unobserve_in)

lemma delete_quiet:
  assumes "delete st p = Inr (st', evs)" and "quiet st"
  shows "\<exists>d. st' = after_teardown st p d
     \<and> evs = (updateBoundElementsForPath st' p JNull @ updateBoundElementsAtPath st' p JNull)
           @ observer_calls st' (Some p) JNull p Delete None
           @ concat (map (\<lambda>q. observer_calls st' (Some q) (get st' (Some q) False) p Delete None)
                         (ancestor_paths p))
           @ observer_calls st' None (data st') p Delete None"
proof -
  from delete_proceeds [OF assms(1)] obtain d where
    n: "notify (after_teardown st p d) p JNull Delete None = (st', evs)"
    by (auto simp: after_teardown_def)
  from notify_quiet [OF quiet_after_teardown [OF assms(2)], of p d p JNull Delete None] n
  show ?thesis by auto
qed

lemma updateBoundElementsForPath_bound:
  "BoundUpdate x q a w \<in> set (updateBoundElementsForPath st P V) \<Longrightarrow> map_of (bindings st) q \<noteq> None"
  by (cases "map_of (bindings st) P")
     (auto simp: updateBoundElementsForPath_def updateBoundElementsForPathAndAttribute_def
      split: option.splits)

lemma descend_bound:
  "BoundUpdate x q a w \<in> set (updateBoundElementsAtPathRecursivly st path v) \<longrightarrow> map_of (bindings st) q \<noteq> None"
  "BoundUpdate x q a w \<in> set (for_in_object st path fs) \<longrightarrow> map_of (bindings st) q \<noteq> None"
  "BoundUpdate x q a w \<in> set (for_in_array st path i xs) \<longrightarrow> map_of (bindings st) q \<noteq> None"
  by (induction st path v and st path fs and st path i xs
       rule: updateBoundElementsAtPathRecursivly_for_in_object_for_in_array.induct)
     (auto dest: updateBoundElementsForPath_bound)

lemma updateBoundElementsAtPath_bound:
  "BoundUpdate x q a w \<in> set (updateBoundElementsAtPath st P V) \<Longrightarrow> map_of (bindings st) q \<noteq> None"
  using descend_bound(2,3) [of x q a w st P]
  by (cases V) (auto simp: updateBoundElementsAtPath_def)

lemma observer_calls_no_update:
  "BoundUpdate x q a w \<notin> set (observer_calls st path v cp act el)"
  by (auto simp: observer_calls_def call_def)

lemma notify_quiet_bound:
  assumes "quiet st" and "BoundUpdate x q a w \<in> set (snd (notify st P V A el))"
  shows "map_of (bindings st) q \<noteq> None"
proof -
  from assms(2) have "BoundUpdate x q a w \<in> set (updateBoundElementsForPath st P V)
      \<or> BoundUpdate x q a w \<in> set (updateBoundElementsAtPath st P V)"
    by (auto simp: notify_quiet [OF assms(1)] observer_calls_no_update)
  then show ?thesis
    by (auto dest: updateBoundElementsForPath_bound updateBoundElementsAtPath_bound)
qed

lemma map_of_filter_prefix:
  "prefix p q \<Longrightarrow> map_of (filter (\<lambda>(k, v). \<not> prefix p k) al) q = None"
  by (induction al) auto

lemma cascade_run: "delete doc_cascade ''a'' = Inr (doc_cascade_after, [])"
  by (simp add: doc_cascade_def doc_cascade_after_def eval_defs unbindAll_loop_filter)


section \<open>Numerals and array indices\<close>









section \<open>The reduction over a path\<close>






lemma get_in_Nil [simp]: "get_in d [] au = d"
  by (simp add: get_in_def)










section \<open>set\<close>






















section \<open>move\<close>









section \<open>The claims\<close>

text \<open>
  C1, as the code has it. \<open>delete(p)\<close> unregisters every binding stored under a path that
  has \<open>p\<close> as a string prefix, and the observers stored at exactly \<open>p\<close>. The observers
  stored under any other path stay registered, also those under a longer path such as
  \<open>a.b\<close> for \<open>p = a\<close>. After the call no notification updates an element through
  one of the removed bindings. The callbacks are taken not to call back into the instance.
\<close>

theorem delete_cascade:
  assumes "delete st p = Inr (st', evs)" and "quiet st"
  shows "(\<forall>q. prefix p q \<longrightarrow> map_of (bindings st') q = None)
       \<and> observers_at st' p = []
       \<and> (\<forall>q. q \<noteq> p \<longrightarrow> observers_at st' q = observers_at st q)
       \<and> (\<forall>P V A el x q a w. prefix p q \<longrightarrow> BoundUpdate x q a w \<notin> set (snd (notify st' P V A el)))"
proof -
  from delete_quiet [OF assms] obtain d where st': "st' = after_teardown st p d"
    by blast
  have b: "map_of (bindings st') q = None" if "prefix p q" for q
    using that by (simp add: st' after_teardown_fields map_of_filter_prefix)
  have at: "observers_at st' q = (if q = p then [] else observers_at st q)" for q
    by (simp add: st' observers_at_after_teardown)
  have q': "quiet st'" by (simp add: st' quiet_after_teardown [OF assms(2)])
  have later: "BoundUpdate x q a w \<notin> set (snd (notify st' P V A el))"
    if "prefix p q" for P V A el x q a w
    using notify_quiet_bound [OF q', of x q a w P V A el] b [OF that] by blast
  from b at later show ?thesis by simp
qed

theorem delete_cascade_witness:
  "quiet doc_cascade
   \<and> map_of (bindings doc_cascade_after) ''a.b'' = None
   \<and> observers_at doc_cascade_after ''a'' = []
   \<and> observers_at doc_cascade_after ''a.b'' = observers_at doc_cascade ''a.b''"
proof -
  have q: "quiet doc_cascade" by (simp add: quiet_def doc_cascade_def)
  from delete_cascade [OF cascade_run q] q show ?thesis by simp
qed

text \<open>
  C1, as stated, fails for the observer: with a binding and an observer at \<open>a.b\<close>,
  \<open>delete("a")\<close> removes the binding and keeps the observer, and the next
  \<open>set("a.b", 2)\<close> calls it.
\<close>

theorem delete_keeps_descendant_observer:
  "delete doc_cascade ''a'' = Inr (doc_cascade_after, [])
   \<and> observers_at doc_cascade_after ''a.b'' = [\<lparr>callback = Callback 3 [], ctx = JNull\<rparr>]
   \<and> events_of (set' doc_cascade_after ''a.b'' (JNum 2) None) =
       [Notified 3 \<lparr>n_path = Some ''a.b'', n_action = Create, n_changedPath = ''a.b'',
                    n_value = JNum 2, n_element = None, n_context = JNull\<rparr>]"
  by (simp add: cascade_run)
     (simp add: doc_cascade_after_def eval_defs observers_at_def events_of_def)










text \<open>
  C5. When \<open>set\<close> writes a value \<open>V\<close> and gives back the canonical path, every binding
  registered at a descendant path (the canonical path followed by keys \<open>ks\<close> under which
  \<open>V\<close> holds the value \<open>w\<close>, at any depth) is updated with \<open>w\<close>. With element 7 bound
  to \<open>a.b\<close> on the document \<open>{a: {}}\<close>, \<open>set("a", {b: 7})\<close> updates the element with 7.
\<close>

theorem descendant_bindings_updated:
  assumes "set' st P V el = Inr (Some mp, st', evs)"
    and "ks \<noteq> []" and "subvalue V ks = Some w"
    and "b \<in> set (bound_at st (sub_path mp ks) a)"
  shows "BoundUpdate (element b) (sub_path mp ks) a w \<in> set evs"
proof -
  from set'_proceeds [OF assms(1)] obtain d key isNew where
    n: "notify (st\<lparr>data := d, next_ref := next_ref st + length (split_dot P)\<rparr>) mp V
              (if isNew then Create else Update) el = (st', evs)"
    by blast
  define st1 where "st1 = st\<lparr>data := d, next_ref := next_ref st + length (split_dot P)\<rparr>"
  have st1: "bindings st1 = bindings st" by (simp add: st1_def)
  from notify_events [of st1 mp V "if isNew then Create else Update" el] n obtain rest where
    "evs = updateBoundElementsForPath st1 mp V @ updateBoundElementsAtPath st1 mp V @ rest"
    by (auto simp: st1_def)
  moreover have "BoundUpdate (element b) (sub_path mp ks) a w
      \<in> set (updateBoundElementsAtPath st1 mp V)"
  proof (rule updateBoundElementsAtPath_events [OF assms(2,3)])
    show "b \<in> set (bound_at st1 (sub_path mp ks) a)"
      using assms(4) by (simp add: bound_at_def st1)
  qed
  ultimately show ?thesis by simp
qed

theorem descendant_bindings_updated_witness:
  "BoundUpdate 7 ''a.b'' ''value'' (JNum 7)
     \<in> set (events_of (set' doc_fanout ''a'' (JObj 5 [(''b'', JNum 7)]) None))"
proof -
  have b: "\<lparr>element = 7, twoways = True, event = ''change''\<rparr>
             \<in> set (bound_at doc_fanout (sub_path ''a'' [''b'']) ''value'')"
    by (simp add: doc_fanout_def bound_at_def sub_path_def)
  have "BoundUpdate (element \<lparr>element = 7, twoways = True, event = ''change''\<rparr>)
          (sub_path ''a'' [''b'']) ''value'' (JNum 7)
        \<in> set [BoundUpdate 7 ''a.b'' ''value'' (JNum 7)]"
    by (rule descendant_bindings_updated [OF fanout_run _ _ b]) simp_all
  then show ?thesis by (simp add: fanout_run events_of_def)
qed




text \<open>
  C7, as the code has it. \<open>notifyObserversForPath\<close> takes no snapshot: it reads the list
  stored under the path again at every step. With callbacks that call \<open>unobserve\<close>, the loop
  ends without an error, calls the observers in the order of their registration, none of them
  twice, and stops after the first one whose callback unobserves the path: the observers
  registered behind it are skipped.
\<close>

theorem live_iteration:
  "snd (notifyObserversForPath st path v cp act el) =
     map (call path v cp act el)
         (up_to_first (unobserves (key_of path)) (observers_at st (key_of path)))
   \<and> prefix (up_to_first (unobserves (key_of path)) (observers_at st (key_of path)))
             (observers_at st (key_of path))"
proof (cases "map_of (observables st) (key_of path)")
  case None
  then show ?thesis
    by (simp add: notifyObserversForPath_def observers_at_def)
next
  case (Some os)
  from notify_loop_events [OF Some, of v cp act el 0] Some show ?thesis
    by (cases "notify_loop (observables st) path v cp act el 0")
       (simp add: notifyObserversForPath_def observers_at_def up_to_first_prefix)
qed

theorem live_iteration_witness:
  "snd (notifyObserversForPath doc_reentrant (Some ''a'') (JNum 1) ''a'' Update None) =
     [call (Some ''a'') (JNum 1) ''a'' Update None \<lparr>callback = Callback 1 [Some ''a''], ctx = JNull\<rparr>]"
  using live_iteration [of doc_reentrant "Some ''a''" "JNum 1" "''a''" Update None]
  by (simp add: doc_reentrant_def observers_at_def key_of_def unobserves_def)

text \<open>
  C7, as stated, fails: of the two observers registered at \<open>a\<close> when the notification
  begins, the second is never called, because the callback of the first calls
  \<open>unobserve("a")\<close>.
\<close>

theorem reentrant_unobserve_skips_observer:
  "observers_at doc_reentrant ''a'' =
     [\<lparr>callback = Callback 1 [Some ''a''], ctx = JNull\<rparr>, \<lparr>callback = Callback 2 [], ctx = JNull\<rparr>]
   \<and> snd (notifyObserversForPath doc_reentrant (Some ''a'') (JNum 1) ''a'' Update None) =
     [Notified 1 \<lparr>n_path = Some ''a'', n_action = Update, n_changedPath = ''a'',
                 n_value = JNum 1, n_element = None, n_context = JNull\<rparr>]"
  by (simp add: doc_reentrant_def notifyObserversForPath_def notify_loop.simps key_of_def
        invoke_def unobserve_in_def observers_at_def)

text \<open>
  C8. \<open>unbindAll(q)\<close> and \<open>unobserveAll(q)\<close> remove exactly the stored registrations
  whose path string starts with \<open>q\<close>, character by character and not segment by segment;
  a missing or empty \<open>q\<close> removes all. Everything else in the instance is left as it was.
  With the prefix \<open>user\<close> the registrations at \<open>user\<close>, \<open>user.a\<close> and \<open>username\<close> go.
\<close>

theorem bulk_removal_by_prefix:
  "bindings (unbindAll st q) =
     filter (\<lambda>(p, attrs). \<not> prefix (case q of None \<Rightarrow> [] | Some s \<Rightarrow> s) p) (bindings st)
   \<and> observables (unbindAll st q) = observables st
   \<and> data (unbindAll st q) = data st
   \<and> observables (unobserveAll st q) =
     filter (\<lambda>(p, os). \<not> prefix (case q of None \<Rightarrow> [] | Some s \<Rightarrow> s) p) (observables st)
   \<and> bindings (unobserveAll st q) = bindings st
   \<and> data (unobserveAll st q) = data st"
proof -
  let ?q = "case q of None \<Rightarrow> [] | Some s \<Rightarrow> s"
  have kept_bindings: "unbindAll_loop ?q bs = filter (\<lambda>(p, attrs). \<not> prefix ?q p) bs" for bs
    by (induction bs) auto
  have kept_observers: "unobserveAll_loop ?q obs = filter (\<lambda>(p, os). \<not> prefix ?q p) obs" for obs
    by (induction obs) auto
  have "bindings (unbindAll st q) = filter (\<lambda>(p, attrs). \<not> prefix ?q p) (bindings st)"
    by (simp add: unbindAll_def kept_bindings)
  moreover have "observables (unobserveAll st q) = filter (\<lambda>(p, os). \<not> prefix ?q p) (observables st)"
    by (simp add: unobserveAll_def kept_observers)
  ultimately show ?thesis
    by (simp add: unbindAll_def unobserveAll_def)
qed

theorem bulk_removal_by_prefix_witness:
  "map fst (bindings (unbindAll user_state (Some ''user''))) = [''other'']
   \<and> map fst (observables (unobserveAll user_state (Some ''user''))) = [''other'']"
  using bulk_removal_by_prefix [of user_state "Some ''user''"]
  by (simp add: user_state_def user_bindings_def user_observers_def)

text \<open>
  C9. \<open>set\<close> is documented to return the modified path as a string. On the document
  \<open>{a: 1}\<close> the call \<open>set("a", 1)\<close> takes the early return of the equality check and
  gives back \<open>undefined\<close> (\<open>None\<close>), not a path.
\<close>

theorem set_returns_undefined_when_equal:
  "set' doc_a1 ''a'' (JNum 1) None = Inr (None, doc_a1, [])"
  by (simp add: set'_def doc_a1_def get_def get_in_def get_step_def)





end
